theory Spec2Isabelle
  imports Main
begin

section \<open>Python string primitives used by the path code\<close>

text \<open>
  Keys and paths are Python \<open>str\<close> values, modelled as \<open>string\<close>, one \<open>char\<close> for
  each code point up to 255.
  The platform is POSIX: \<open>os.sep\<close> is the character \<open>/\<close>, the same as
  \<open>OssFileManager.SEP\<close>, and \<open>os.path\<close> is \<open>posixpath\<close>.
\<close>

definition SEP :: string where
  "SEP = ''/''"

text \<open>
  The characters up to 255 for which \<open>str.isspace\<close> holds: 9 to 13, 28 to 32, 133
  and 160.
\<close>

definition isspace :: "char \<Rightarrow> bool" where
  "isspace c =
     (let n = (of_char c :: nat)
      in (9 \<le> n \<and> n \<le> 13) \<or> (28 \<le> n \<and> n \<le> 32) \<or> n = 133 \<or> n = 160)"

text \<open>\<open>s.strip()\<close> removes the whitespace at both ends.\<close>

definition strip :: "string \<Rightarrow> string" where
  "strip s = rev (dropWhile isspace (rev (dropWhile isspace s)))"

text \<open>\<open>s.strip(chars)\<close> removes the characters of \<open>chars\<close> at both ends.\<close>

definition strip_chars :: "string \<Rightarrow> string \<Rightarrow> string" where
  "strip_chars chars s =
     rev (dropWhile (\<lambda>c. c \<in> set chars) (rev (dropWhile (\<lambda>c. c \<in> set chars) s)))"

definition startswith :: "string \<Rightarrow> string \<Rightarrow> bool" where
  "startswith s p = (take (length p) s = p)"

definition endswith :: "string \<Rightarrow> string \<Rightarrow> bool" where
  "endswith s p = (length p \<le> length s \<and> drop (length s - length p) s = p)"

text \<open>\<open>s.split(c)\<close> for a separator of one character: never the empty list.\<close>

fun split :: "char \<Rightarrow> string \<Rightarrow> string list" where
  "split c [] = [[]]"
| "split c (x # xs) =
     (if x = c then [] # split c xs
      else (case split c xs of w # ws \<Rightarrow> (x # w) # ws | [] \<Rightarrow> [[x]]))"

text \<open>\<open>sep.join(xs)\<close>.\<close>

fun join :: "string \<Rightarrow> string list \<Rightarrow> string" where
  "join sep [] = []"
| "join sep [x] = x"
| "join sep (x # y # ys) = x @ sep @ join sep (y # ys)"

text \<open>
  \<open>s.replace(old, new)\<close>: every occurrence of \<open>old\<close>, left to right, without
  overlap; an empty \<open>old\<close> matches before every character and at the end.
\<close>

function replace :: "string \<Rightarrow> string \<Rightarrow> string \<Rightarrow> string" where
  "replace old new [] = (if old = [] then new else [])"
| "replace old new (c # cs) =
     (if old = [] then new @ c # replace old new cs
      else if startswith (c # cs) old then new @ replace old new (drop (length old) (c # cs))
      else c # replace old new cs)"
  by pat_completeness auto
termination
  by (relation "measure (\<lambda>(old, new, s). length s)") auto

text \<open>\<open>xs[:-1]\<close> is \<open>butlast xs\<close>; \<open>xs[-1]\<close> on a list that \<open>split\<close> returned is \<open>last xs\<close>.\<close>

section \<open>\<open>os.path.normpath\<close> (posixpath)\<close>

text \<open>
  The number of leading separators that \<open>normpath\<close> keeps: none, one, or two when the
  path starts with exactly two.
\<close>

definition initial_slashes :: "string \<Rightarrow> nat" where
  "initial_slashes path =
     (if startswith path ''/'' then
        (if startswith path ''//'' \<and> \<not> startswith path ''///'' then 2 else 1)
      else 0)"

text \<open>The loop over the components, with \<open>new_comps\<close> as the accumulator.\<close>

fun normpath_loop :: "nat \<Rightarrow> string list \<Rightarrow> string list \<Rightarrow> string list" where
  "normpath_loop ini [] new_comps = new_comps"
| "normpath_loop ini (cmp # comps) new_comps =
     (if cmp = [] \<or> cmp = ''.'' then normpath_loop ini comps new_comps
      else if cmp \<noteq> ''..'' \<or> (ini = 0 \<and> new_comps = [])
              \<or> (new_comps \<noteq> [] \<and> last new_comps = ''..'')
        then normpath_loop ini comps (new_comps @ [cmp])
      else if new_comps \<noteq> [] then normpath_loop ini comps (butlast new_comps)
      else normpath_loop ini comps new_comps)"

definition normpath :: "string \<Rightarrow> string" where
  "normpath path =
     (if path = [] then ''.''
      else
        let ini = initial_slashes path;
            comps = normpath_loop ini (split CHR ''/'' path) [];
            p = replicate ini CHR ''/'' @ join ''/'' comps
        in if p = [] then ''.'' else p)"

section \<open>\<open>OssFileManager.norm_path\<close> and \<open>OssFileManager.is_dir\<close>\<close>

definition norm_path :: "string \<Rightarrow> string" where
  "norm_path remote_path0 =
     (let remote_path = strip remote_path0;
          isdir = (endswith remote_path SEP \<or> strip remote_path \<in> set [[], ''.'', ''..'']);
          remote_path = replace ''/'' SEP (normpath remote_path)
      in if remote_path = [] \<or> remote_path = SEP then SEP
         else if isdir then remote_path @ SEP
         else remote_path)"

definition is_dir :: "string \<Rightarrow> bool" where
  "is_dir remote_path =
     (if strip remote_path \<in> set [[], ''.'', ''..''] then True
      else endswith (norm_path remote_path) SEP)"

section \<open>The store, the callbacks and the effects of an operation\<close>

text \<open>
  The bucket of \<open>prox_oss2\<close> is an external collaborator. A store gives, for every call
  the manager makes, what the call returns: \<open>None\<close> when the call raises, the listed
  keys in listing order for a listing, the HTTP status of the result otherwise. The answer
  to a call is a function of its arguments.
\<close>

record store =
  bucket_name :: string
  list_objects :: "string \<Rightarrow> string \<Rightarrow> string list option"
  object_exists :: "string \<Rightarrow> bool option"
  copy_object :: "string \<Rightarrow> string \<Rightarrow> int option"
  delete_object :: "string \<Rightarrow> int option"
  get_object_to_file :: "string \<Rightarrow> string \<Rightarrow> int option"

text \<open>
  What a callback receives: strings, \<open>None\<close>, or a result object, of which only the
  status is read.
\<close>

datatype arg = Str string | PyNone | Result int

text \<open>
  A callback is optional (\<open>on_error(...) if on_error else None\<close>). A callback that is
  present is a Python callable: on an argument list it either returns (\<open>True\<close>) or
  raises (\<open>False\<close>), as a function of four parameters does when it gets three.
\<close>

type_synonym callback = "(arg list \<Rightarrow> bool) option"

text \<open>What an operation does to the outside, in the order it does it.\<close>

datatype effect =
    ListObjects string string
  | ObjectExists string
  | CopyObject string string
  | DeleteObject string
  | GetObjectToFile string string
  | Mkdir string
  | OnSuccess "arg list"
  | OnError "arg list"

datatype exn =
    StoreError
  | CallbackError
  | OSError
  | Message string
  | YuiIsExistException exn
  | YuiDownloadException exn
  | YuiDeleteException exn
  | YuiCopyException exn
  | YuiMoveException exn

text \<open>
  The run of a piece of code: the effects it had, and the exception that ended it, if
  one did.
\<close>

type_synonym run = "effect list \<times> exn option"

definition done_run :: run where
  "done_run = ([], None)"

definition raise :: "exn \<Rightarrow> run" where
  "raise e = ([], Some e)"

text \<open>Sequencing: the second run happens only when the first one returned.\<close>

definition then_run :: "run \<Rightarrow> run \<Rightarrow> run" where
  "then_run r1 r2 =
     (case snd r1 of Some e \<Rightarrow> r1 | None \<Rightarrow> (fst r1 @ fst r2, snd r2))"

text \<open>\<open>try: ... except Exception as e: raise W(e)\<close>.\<close>

definition wrap :: "(exn \<Rightarrow> exn) \<Rightarrow> run \<Rightarrow> run" where
  "wrap W r = (case snd r of Some e \<Rightarrow> (fst r, Some (W e)) | None \<Rightarrow> r)"

text \<open>\<open>cb(args) if cb else None\<close>; the invocation is an effect whether it returns or raises.\<close>

definition call_back :: "(arg list \<Rightarrow> effect) \<Rightarrow> callback \<Rightarrow> arg list \<Rightarrow> run" where
  "call_back tag cb args =
     (case cb of None \<Rightarrow> done_run
      | Some f \<Rightarrow> ([tag args], if f args then None else Some CallbackError))"

text \<open>\<open>for x in xs: body(x)\<close>.\<close>

fun for_each :: "('a \<Rightarrow> run) \<Rightarrow> 'a list \<Rightarrow> run" where
  "for_each body [] = done_run"
| "for_each body (x # xs) = then_run (body x) (for_each body xs)"

section \<open>\<open>OssFileManager\<close>: is_exist, list_dir, delete, copy, move\<close>

definition is_exist :: "store \<Rightarrow> string \<Rightarrow> run \<times> bool option" where
  "is_exist st remote0 =
     (let remote = norm_path remote0
      in case object_exists st remote of
           None \<Rightarrow> (([ObjectExists remote], Some (YuiIsExistException StoreError)), None)
         | Some b \<Rightarrow> (([ObjectExists remote], None), Some b))"

text \<open>
  \<open>list_dir\<close> returns an \<open>ObjectIterator\<close> over prefix \<open>root\<close>, with delimiter \<open>''\<close>
  when \<open>list_all\<close> and \<open>SEP\<close> otherwise. The query goes to the store when the
  iterator is consumed; \<open>iterate\<close> is that consumption followed by the loop body on each
  key. The listing is taken whole before the first iteration of the body.
\<close>

definition list_dir :: "string \<Rightarrow> bool \<Rightarrow> string \<times> string" where
  "list_dir root list_all_flag = (root, if list_all_flag then [] else SEP)"

definition iterate :: "store \<Rightarrow> string \<times> string \<Rightarrow> (string list \<Rightarrow> run) \<Rightarrow> run" where
  "iterate st it body =
     (case list_objects st (fst it) (snd it) of
        None \<Rightarrow> ([ListObjects (fst it) (snd it)], Some StoreError)
      | Some keys \<Rightarrow> then_run ([ListObjects (fst it) (snd it)], None) (body keys))"

definition delete_single :: "store \<Rightarrow> callback \<Rightarrow> callback \<Rightarrow> string \<Rightarrow> run" where
  "delete_single st on_success on_error rem =
     (case delete_object st rem of
        None \<Rightarrow> ([DeleteObject rem], Some StoreError)
      | Some status \<Rightarrow>
          then_run ([DeleteObject rem], None)
            (if status \<ge> 400
             then call_back OnError on_error [Str ''delete'', Str rem, PyNone, Result status]
             else call_back OnSuccess on_success [Str ''delete'', Str rem, PyNone, Result status]))"

definition delete :: "store \<Rightarrow> callback \<Rightarrow> callback \<Rightarrow> string \<Rightarrow> bool \<Rightarrow> run" where
  "delete st on_success on_error remote0 recursive =
     wrap YuiDeleteException
       (let remote = norm_path remote0
        in if is_dir remote then
             (if recursive then
                iterate st (list_dir remote True)
                  (\<lambda>subdirs. for_each (delete_single st on_success on_error) (rev subdirs))
              else raise (YuiDeleteException (Message ''The directory to be deleted is not empty!'')))
           else delete_single st on_success on_error remote)"

text \<open>
  \<open>copy_object\<close> is always called with the manager's own bucket as the source bucket;
  the effect records the two keys.
\<close>

definition copy_single :: "store \<Rightarrow> callback \<Rightarrow> callback \<Rightarrow> string \<Rightarrow> string \<Rightarrow> run" where
  "copy_single st on_success on_error rem_src rem_dest =
     (case copy_object st rem_src rem_dest of
        None \<Rightarrow> ([CopyObject rem_src rem_dest], Some StoreError)
      | Some status \<Rightarrow>
          then_run ([CopyObject rem_src rem_dest], None)
            (if status \<ge> 400
             then call_back OnError on_error [Str rem_src, Str rem_dest, Result status]
             else call_back OnSuccess on_success
                    [Str ''copy'', Str rem_src, Str rem_dest, Result status]))"

text \<open>\<open>SEP.join(remote.strip(SEP).split(SEP)[:-1]) + SEP\<close>: the parent prefix of a key.\<close>

definition parent_prefix :: "string \<Rightarrow> string" where
  "parent_prefix remote = join SEP (butlast (split CHR ''/'' (strip_chars SEP remote))) @ SEP"

text \<open>The new key of a listed key, in the loops of \<open>copy\<close> and \<open>move\<close>.\<close>

definition new_path :: "string \<Rightarrow> string \<Rightarrow> string \<Rightarrow> string" where
  "new_path prefix remote_dest key =
     (if prefix = SEP then remote_dest @ key else replace prefix remote_dest key)"

definition copy :: "store \<Rightarrow> callback \<Rightarrow> callback \<Rightarrow> string \<Rightarrow> string \<Rightarrow> run" where
  "copy st on_success on_error remote_src0 remote_dest0 =
     wrap YuiCopyException
       (let remote_src = norm_path remote_src0;
            remote_dest = norm_path remote_dest0
        in if is_dir remote_src then
             (if \<not> is_dir remote_dest then
                raise (YuiMoveException (Message ''destination path should also be a directory''))
              else if startswith remote_dest remote_src then
                raise (YuiCopyException
                  (Message ''destination directory is a sub-directory of the source directory''))
              else
                let prefix = parent_prefix remote_src
                in iterate st (list_dir remote_src True)
                     (for_each (\<lambda>key.
                        copy_single st on_success on_error key (new_path prefix remote_dest key))))
           else
             (let remote_dest =
                    (if is_dir remote_dest
                     then replace (parent_prefix remote_src) remote_dest remote_src
                     else remote_dest)
              in copy_single st on_success on_error remote_src remote_dest))"

definition move_single :: "store \<Rightarrow> callback \<Rightarrow> callback \<Rightarrow> string \<Rightarrow> string \<Rightarrow> run" where
  "move_single st on_success on_error rem_old rem_new =
     (case copy_object st rem_old rem_new of
        None \<Rightarrow> ([CopyObject rem_old rem_new], Some StoreError)
      | Some status \<Rightarrow>
          then_run ([CopyObject rem_old rem_new], None)
            (then_run
               (if status \<ge> 400
                then call_back OnError on_error [Str rem_old, Str rem_new, Result status]
                else done_run)
               (case delete_object st rem_old of
                  None \<Rightarrow> ([DeleteObject rem_old], Some StoreError)
                | Some status' \<Rightarrow>
                    then_run ([DeleteObject rem_old], None)
                      (if status' \<ge> 400
                       then call_back OnError on_error
                              [Str ''move'', Str rem_old, Str rem_new, Result status']
                       else call_back OnSuccess on_success
                              [Str ''move'', Str rem_old, Str rem_new, Result status']))))"

definition move :: "store \<Rightarrow> callback \<Rightarrow> callback \<Rightarrow> string \<Rightarrow> string \<Rightarrow> run" where
  "move st on_success on_error remote_old0 remote_new0 =
     wrap YuiMoveException
       (let remote_old = norm_path remote_old0;
            remote_new = norm_path remote_new0
        in if is_dir remote_old then
             (if \<not> is_dir remote_new then
                raise (YuiMoveException (Message ''destination path should also be a directory''))
              else if startswith remote_new remote_old then
                raise (YuiMoveException
                  (Message ''destination directory is a sub-directory of the source directory''))
              else
                let prefix = parent_prefix remote_old
                in iterate st (list_dir remote_old True)
                     (for_each (\<lambda>key.
                        move_single st on_success on_error key (new_path prefix remote_new key))))
           else
             (let remote_new =
                    (if is_dir remote_new
                     then replace (parent_prefix remote_old) remote_new remote_old
                     else remote_new)
              in move_single st on_success on_error remote_old remote_new))"

section \<open>The local file system and \<open>OssFileManager.download\<close>\<close>

text \<open>
  The local side of a download: the working directory, the directories and the files that
  exist, as absolute normalised paths. \<open>os.sep\<close> is \<open>/\<close>.
\<close>

record localfs =
  cwd :: string
  dirs :: "string list"
  files :: "string list"

definition os_sep :: string where
  "os_sep = ''/''"

text \<open>\<open>os.path.join\<close> of two paths and \<open>os.path.abspath\<close>.\<close>

definition path_join :: "string \<Rightarrow> string \<Rightarrow> string" where
  "path_join a b =
     (if startswith b ''/'' then b
      else if a = [] \<or> endswith a ''/'' then a @ b
      else a @ ''/'' @ b)"

definition abspath :: "localfs \<Rightarrow> string \<Rightarrow> string" where
  "abspath fs path =
     normpath (if startswith path ''/'' then path else path_join (cwd fs) path)"

text \<open>
  Where the file system looks a path up: \<open>normpath\<close> keeps two leading separators,
  which name the same place as one.
\<close>

definition fs_path :: "localfs \<Rightarrow> string \<Rightarrow> string" where
  "fs_path fs path =
     (let n = abspath fs path in if startswith n ''//'' then drop 1 n else n)"

text \<open>The directory that holds an absolute normalised path.\<close>

definition parent_dir :: "string \<Rightarrow> string" where
  "parent_dir p =
     (let head = rev (dropWhile (\<lambda>c. c \<noteq> CHR ''/'') (rev p))
      in if head \<noteq> [] \<and> head \<noteq> replicate (length head) CHR ''/''
         then rev (dropWhile (\<lambda>c. c = CHR ''/'') (rev head))
         else head)"

definition isdir :: "localfs \<Rightarrow> string \<Rightarrow> bool" where
  "isdir fs path = (path \<noteq> [] \<and> fs_path fs path \<in> set (dirs fs))"

text \<open>
  \<open>os.mkdir\<close> raises when the path exists or its parent is not a directory
  (\<open>None\<close>); otherwise the directory exists afterwards.
\<close>

definition mkdir :: "localfs \<Rightarrow> string \<Rightarrow> localfs option" where
  "mkdir fs path =
     (let n = fs_path fs path
      in if path = [] \<or> n \<in> set (dirs fs) \<or> n \<in> set (files fs)
            \<or> parent_dir n \<notin> set (dirs fs)
         then None
         else Some (fs\<lparr>dirs := dirs fs @ [n]\<rparr>))"

text \<open>
  \<open>get_object_to_file\<close> opens the local file for writing before it asks the store:
  the open raises on a directory or under a missing directory (\<open>None\<close>).
\<close>

definition open_wb :: "localfs \<Rightarrow> string \<Rightarrow> localfs option" where
  "open_wb fs path =
     (let n = fs_path fs path
      in if path = [] \<or> endswith path ''/'' \<or> n \<in> set (dirs fs)
            \<or> parent_dir n \<notin> set (dirs fs)
         then None
         else Some (fs\<lparr>files := List.insert n (files fs)\<rparr>))"

definition download_single ::
  "store \<Rightarrow> callback \<Rightarrow> callback \<Rightarrow> localfs \<Rightarrow> string \<Rightarrow> string \<Rightarrow> run \<times> localfs" where
  "download_single st on_success on_error fs rem loc =
     (let dest_loc = (if isdir fs loc
                      then loc @ os_sep @ last (split CHR ''/'' (strip_chars SEP rem))
                      else loc);
          dest_loc = dest_loc @ (if is_dir rem then os_sep else [])
      in if is_dir rem then
           (case mkdir fs dest_loc of
              None \<Rightarrow> (([Mkdir dest_loc], Some OSError), fs)
            | Some fs' \<Rightarrow>
                (then_run ([Mkdir dest_loc], None)
                   (call_back OnSuccess on_success
                      [Str ''download'', Str rem, Str loc, Str ''mkdir'']), fs'))
         else
           (case open_wb fs dest_loc of
              None \<Rightarrow> (([GetObjectToFile rem dest_loc], Some OSError), fs)
            | Some fs' \<Rightarrow>
                (case get_object_to_file st rem dest_loc of
                   None \<Rightarrow> (([GetObjectToFile rem dest_loc], Some StoreError), fs')
                 | Some status \<Rightarrow>
                     (then_run ([GetObjectToFile rem dest_loc], None)
                        (if status \<ge> 400
                         then call_back OnError on_error
                                [Str ''download'', Str rem, Str loc, Result status]
                         else call_back OnSuccess on_success
                                [Str ''download'', Str rem, Str loc, Result status]), fs'))))"

text \<open>
  The local directory handed to \<open>download_single\<close> for a listed key:
  \<open>os.path.normpath(SEP.join([local, postfix]))\<close>, where \<open>postfix\<close> is the key
  without its last segment.
\<close>

definition dest_local :: "string \<Rightarrow> string \<Rightarrow> string" where
  "dest_local local key =
     (let postfix = join SEP (butlast (split CHR ''/'' (strip_chars SEP key)))
      in normpath (join SEP [local, postfix]))"

fun download_loop ::
  "store \<Rightarrow> callback \<Rightarrow> callback \<Rightarrow> string \<Rightarrow> localfs \<Rightarrow> string list \<Rightarrow> run \<times> localfs" where
  "download_loop st on_success on_error local fs [] = (done_run, fs)"
| "download_loop st on_success on_error local fs (key # keys) =
     (let (r, fs') = download_single st on_success on_error fs key (dest_local local key)
      in case snd r of
           Some e \<Rightarrow> (r, fs')
         | None \<Rightarrow>
             (let (r', fs'') = download_loop st on_success on_error local fs' keys
              in (then_run r r', fs'')))"

definition download ::
  "store \<Rightarrow> callback \<Rightarrow> callback \<Rightarrow> localfs \<Rightarrow> string \<Rightarrow> string \<Rightarrow> bool \<Rightarrow> run \<times> localfs" where
  "download st on_success on_error fs remote0 local0 recursive =
     (let local = abspath fs local0;
          remote = norm_path remote0;
          (r, fs') = download_single st on_success on_error fs remote local;
          (r, fs') =
            (case snd r of
               Some e \<Rightarrow> (r, fs')
             | None \<Rightarrow>
                 if is_dir remote \<and> recursive then
                   (let it = list_dir remote True
                    in case list_objects st (fst it) (snd it) of
                         None \<Rightarrow>
                           (then_run r ([ListObjects (fst it) (snd it)], Some StoreError), fs')
                       | Some keys \<Rightarrow>
                           (let (r', fs'') =
                                  download_loop st on_success on_error local fs' keys
                            in (then_run r
                                  (then_run ([ListObjects (fst it) (snd it)], None) r'), fs'')))
                 else (r, fs'))
      in (wrap YuiDownloadException r, fs'))"

section \<open>The console: \<open>Yui.cd\<close> and the callbacks of \<open>Yui\<close>\<close>

datatype color = RED | GREEN | BLUE | YELLOW

text \<open>
  The console object: the manager's store, the current root, the \<open>root\<close> entry of
  \<open>attrs\<close>, the root as last written to the attribute file, and what was printed.
\<close>

record yui =
  fm :: store
  root :: string
  attrs_root :: string
  attr_file :: string
  stdout :: "(color \<times> string) list"

definition print :: "color \<Rightarrow> string \<Rightarrow> yui \<Rightarrow> yui" where
  "print c text y = y\<lparr>stdout := stdout y @ [(c, text)]\<rparr>"

definition basic_info_print :: "yui \<Rightarrow> yui" where
  "basic_info_print y =
     print BLUE (''bucket@ '' @ bucket_name (fm y) @ [CHR 0x09] @ ''root@ '' @ root y @ [CHR 0x0A]) y"

definition update_attr :: "yui \<Rightarrow> yui" where
  "update_attr y = y\<lparr>attr_file := attrs_root y\<rparr>"

text \<open>The loop of \<open>cd\<close> over the segments, with \<open>new_root_segs\<close> as the accumulator.\<close>

fun cd_loop :: "string list \<Rightarrow> string list \<Rightarrow> string list" where
  "cd_loop [] new_root_segs = new_root_segs"
| "cd_loop (seg # root_segs) new_root_segs =
     (if seg = ''.'' then cd_loop root_segs new_root_segs
      else if seg = ''..'' then
        (if length new_root_segs > 0 then cd_loop root_segs (butlast new_root_segs)
         else cd_loop root_segs new_root_segs)
      else cd_loop root_segs (new_root_segs @ [seg]))"

definition cd_finish :: "yui \<Rightarrow> yui" where
  "cd_finish y =
     (let y = update_attr (y\<lparr>attrs_root := root y\<rparr>)
      in print GREEN (''current directory changed to: /'' @ root y) y)"

definition cd :: "yui \<Rightarrow> string list \<Rightarrow> yui" where
  "cd y0 args =
     (let y = basic_info_print y0
      in if length args = 0 then cd_finish (y\<lparr>root := []\<rparr>)
         else
           let path = hd args
           in if \<not> is_dir path then print RED ''cd path should be a directory'' y
              else
                let path = norm_path path;
                    tmp_root = (if startswith path SEP then drop 1 path else root y @ path);
                    root_segs = split CHR ''/'' tmp_root;
                    new_root_segs = cd_loop root_segs []
                in cd_finish (y\<lparr>root := join SEP new_root_segs\<rparr>))"

text \<open>
  \<open>Yui.on_error(self, method, src, dest, result)\<close> takes four arguments and
  concatenates \<open>src\<close>, and \<open>dest\<close> when it is not empty, to strings; any other call
  raises. \<open>Yui.on_success\<close> has the same parameters and does the same when verbose.
\<close>

definition yui_callback :: "arg list \<Rightarrow> bool" where
  "yui_callback args =
     (case args of
        [method, Str src, PyNone, result] \<Rightarrow> True
      | [method, Str src, Str dest, result] \<Rightarrow> True
      | _ \<Rightarrow> False)"

section \<open>Stores, callbacks and states used as concrete inputs\<close>

text \<open>A callback that takes any arguments and returns.\<close>

definition recorder :: callback where
  "recorder = Some (\<lambda>args. True)"

text \<open>
  A bucket that holds the given keys, in listing order: a listing without delimiter
  gives the keys that start with the prefix; with a delimiter, the part of each such key
  up to the first delimiter after the prefix, once. Every copy answers with status
  \<open>cs\<close>, every delete with \<open>ds\<close>, every download with 200.
\<close>

definition roll_up :: "string \<Rightarrow> string \<Rightarrow> string \<Rightarrow> string" where
  "roll_up pre delim key =
     (let rest = drop (length pre) key
      in if delim \<noteq> [] \<and> set delim \<inter> set rest \<noteq> {}
         then pre @ takeWhile (\<lambda>c. c \<notin> set delim) rest @ delim
         else key)"

definition key_store :: "string list \<Rightarrow> int \<Rightarrow> int \<Rightarrow> store" where
  "key_store keys cs ds =
     \<lparr> bucket_name = ''bucket'',
       list_objects = (\<lambda>pre delim.
          Some (remdups (map (roll_up pre delim) (filter (\<lambda>k. startswith k pre) keys)))),
       object_exists = (\<lambda>k. Some (k \<in> set keys)),
       copy_object = (\<lambda>src dst. Some cs),
       delete_object = (\<lambda>k. Some ds),
       get_object_to_file = (\<lambda>k path. Some 200) \<rparr>"

definition console :: "store \<Rightarrow> string \<Rightarrow> yui" where
  "console st r = \<lparr> fm = st, root = r, attrs_root = r, attr_file = r, stdout = [] \<rparr>"

definition tmp_fs :: localfs where
  "tmp_fs = \<lparr> cwd = ''/'', dirs = [''/'', ''/dl''], files = [] \<rparr>"

section \<open>Collapsed component lists\<close>

text \<open>
  What the loop of \<open>normpath\<close> produces: components that are not empty, not \<open>.\<close>
  and without separator, with \<open>..\<close> only at the front of a relative path and nowhere in
  an absolute one.
\<close>

definition clean :: "string \<Rightarrow> bool" where
  "clean c \<longleftrightarrow> c \<noteq> [] \<and> c \<noteq> ''.'' \<and> CHR ''/'' \<notin> set c"

definition dots_first :: "string list \<Rightarrow> bool" where
  "dots_first cs \<longleftrightarrow> ''..'' \<notin> set (dropWhile (\<lambda>c. c = ''..'') cs)"

definition collapsed :: "nat \<Rightarrow> string list \<Rightarrow> bool" where
  "collapsed ini cs \<longleftrightarrow>
     list_all clean cs \<and> (if ini = 0 then dots_first cs else ''..'' \<notin> set cs)"

section \<open>Projections of the effects\<close>

text \<open>The store calls among the effects, and the destination keys of the copies.\<close>

fun is_store_call :: "effect \<Rightarrow> bool" where
  "is_store_call (OnSuccess args) = False"
| "is_store_call (OnError args) = False"
| "is_store_call e = True"

definition store_calls :: "effect list \<Rightarrow> effect list" where
  "store_calls es = filter is_store_call es"

fun copy_dests :: "effect list \<Rightarrow> string list" where
  "copy_dests [] = []"
| "copy_dests (CopyObject src dst # es) = dst # copy_dests es"
| "copy_dests (e # es) = copy_dests es"

definition scenario_keys :: "string list" where
  "scenario_keys = [''x/a.txt'', ''x/b/'', ''x/b/c.txt'']"

section \<open>Facts about the string primitives and \<open>norm_path\<close>\<close>

lemma endswith_sep_iff: "endswith s SEP \<longleftrightarrow> (s \<noteq> [] \<and> last s = CHR ''/'')"
proof (cases s rule: rev_cases)
  case Nil
  then show ?thesis by (simp add: endswith_def SEP_def)
next
  case (snoc ys y)
  then show ?thesis by (auto simp: endswith_def SEP_def)
qed

lemma not_isspace_sep: "\<not> isspace CHR ''/''"
  by (simp add: isspace_def)

lemma strip_snoc_sep: "strip (s @ ''/'') = dropWhile isspace s @ ''/''"
proof -
  have "dropWhile isspace (s @ ''/'') = dropWhile isspace s @ ''/''"
    by (induction s) (simp_all add: not_isspace_sep)
  then show ?thesis by (simp add: strip_def not_isspace_sep)
qed

lemma endswith_strip: "endswith s SEP \<Longrightarrow> endswith (strip s) SEP"
proof -
  assume "endswith s SEP"
  then obtain ys where "s = ys @ ''/''"
    by (cases s rule: rev_cases) (auto simp: endswith_sep_iff)
  then show ?thesis by (simp add: strip_snoc_sep endswith_sep_iff)
qed

lemma replace_sep_id: "replace ''/'' ''/'' s = s"
  by (induction s) (simp_all add: startswith_def)

lemma norm_path_unfold:
  "norm_path p =
     (if normpath (strip p) = [] \<or> normpath (strip p) = SEP then SEP
      else if endswith (strip p) SEP \<or> strip (strip p) \<in> {[], ''.'', ''..''}
        then normpath (strip p) @ SEP else normpath (strip p))"
  by (simp add: norm_path_def Let_def replace_sep_id SEP_def)

lemma norm_path_dir: "endswith (strip p) SEP \<Longrightarrow> endswith (norm_path p) SEP"
  by (simp add: norm_path_unfold endswith_sep_iff) (simp add: SEP_def)

text \<open>
  A path that \<open>is_dir\<close> accepts is still accepted after \<open>norm_path\<close>: the operations
  normalise first and test the normalised key.
\<close>

lemma is_dir_norm_path: "is_dir p \<Longrightarrow> is_dir (norm_path p)"
proof -
  assume d: "is_dir p"
  show ?thesis
  proof (cases "strip p \<in> set [[], ''.'', ''..'']")
    case True
    then consider "strip p = []" | "strip p = ''.''" | "strip p = ''..''" by auto
    then have "norm_path p \<in> {''./'', ''../''}"
    proof cases
      case 1 then show ?thesis by (simp add: norm_path_unfold) code_simp
    next
      case 2 then show ?thesis by (simp add: norm_path_unfold) code_simp
    next
      case 3 then show ?thesis by (simp add: norm_path_unfold) code_simp
    qed
    moreover have "is_dir ''./''" by code_simp
    moreover have "is_dir ''../''" by code_simp
    ultimately show ?thesis by auto
  next
    case False
    with d have "endswith (norm_path p) SEP" by (simp add: is_dir_def)
    then have "endswith (norm_path (norm_path p)) SEP"
      by (rule norm_path_dir [OF endswith_strip])
    then show ?thesis by (simp add: is_dir_def)
  qed
qed

section \<open>Facts about \<open>split\<close>, \<open>join\<close> and \<open>normpath\<close>\<close>

lemma split_not_Nil: "split c s \<noteq> []"
  by (induction s) (auto split: list.splits)

lemma split_no_sep: "w \<in> set (split c s) \<Longrightarrow> c \<notin> set w"
proof (induction s arbitrary: w)
  case Nil
  then show ?case by simp
next
  case (Cons x xs)
  show ?case
  proof (cases "x = c")
    case True
    with Cons show ?thesis by auto
  next
    case False
    obtain v vs where s: "split c xs = v # vs"
      using split_not_Nil [of c xs] by (cases "split c xs") auto
    with Cons.prems False have "w = x # v \<or> w \<in> set vs" by simp
    then show ?thesis
    proof
      assume "w = x # v"
      moreover have "c \<notin> set v" using Cons.IH [of v] s by simp
      ultimately show ?thesis using False by simp
    next
      assume "w \<in> set vs"
      then show ?thesis using Cons.IH [of w] s by simp
    qed
  qed
qed

lemma split_word: "c \<notin> set w \<Longrightarrow> split c w = [w]"
  by (induction w) auto

lemma split_word_sep: "c \<notin> set w \<Longrightarrow> split c (w @ c # rest) = w # split c rest"
  by (induction w) auto

lemma split_join:
  "cs \<noteq> [] \<Longrightarrow> \<forall>w\<in>set cs. c \<notin> set w \<Longrightarrow> split c (join [c] cs) = cs"
proof (induction "[c]" cs rule: join.induct)
  case 1
  then show ?case by simp
next
  case (2 x)
  then show ?case by (simp add: split_word)
next
  case (3 x y ys)
  then show ?case by (simp add: split_word_sep)
qed

lemma split_leading: "split c (replicate n c @ s) = replicate n [] @ split c s"
  by (induction n) simp_all

lemma join_snoc_empty: "cs \<noteq> [] \<Longrightarrow> join sep (cs @ [[]]) = join sep cs @ sep"
  by (induction sep cs rule: join.induct) simp_all

lemma join_hd:
  "cs \<noteq> [] \<Longrightarrow> hd cs \<noteq> [] \<Longrightarrow> join sep cs \<noteq> [] \<and> hd (join sep cs) = hd (hd cs)"
  by (induction sep cs rule: join.induct) simp_all

lemma join_last:
  "cs \<noteq> [] \<Longrightarrow> last cs \<noteq> [] \<Longrightarrow> join sep cs \<noteq> [] \<and> last (join sep cs) = last (last cs)"
  by (induction sep cs rule: join.induct) simp_all

lemma loop_append:
  "normpath_loop ini (xs @ ys) acc = normpath_loop ini ys (normpath_loop ini xs acc)"
  by (induction xs arbitrary: acc) simp_all

lemma loop_empties: "normpath_loop ini (replicate n []) acc = acc"
  by (induction n) simp_all

lemma dots_first_snoc:
  "dots_first (acc @ [c]) \<longleftrightarrow>
     dots_first acc \<and> (c = ''..'' \<longrightarrow> (\<forall>x\<in>set acc. x = ''..''))"
proof (cases "\<forall>x\<in>set acc. x = ''..''")
  case True
  then have e: "dropWhile (\<lambda>c. c = ''..'') acc = []" by simp
  have "dots_first acc" unfolding dots_first_def e by simp
  moreover have "dots_first (acc @ [c])"
    unfolding dots_first_def dropWhile_append using True by auto
  ultimately show ?thesis using True by simp
next
  case False
  then show ?thesis by (auto simp: dots_first_def dropWhile_append)
qed

lemma last_dropWhile_ne: "dropWhile P xs \<noteq> [] \<Longrightarrow> last (dropWhile P xs) = last xs"
  by (induction xs) (auto split: if_splits)

lemma dots_first_last:
  assumes "dots_first acc" and "acc \<noteq> []" and "last acc = ''..''"
  shows "\<forall>x\<in>set acc. x = ''..''"
proof (rule ccontr)
  assume "\<not> (\<forall>x\<in>set acc. x = ''..'')"
  then have n: "dropWhile (\<lambda>c. c = ''..'') acc \<noteq> []" by (simp add: dropWhile_eq_Nil_conv)
  then have "last (dropWhile (\<lambda>c. c = ''..'') acc) = last acc"
    by (rule last_dropWhile_ne)
  with n assms(3) have "''..'' \<in> set (dropWhile (\<lambda>c. c = ''..'') acc)"
    by (metis last_in_set)
  with assms(1) show False by (simp add: dots_first_def)
qed

lemma dots_first_butlast: "dots_first acc \<Longrightarrow> dots_first (butlast acc)"
proof (cases acc rule: rev_cases)
  case Nil
  then show "dots_first acc \<Longrightarrow> dots_first (butlast acc)" by simp
next
  case (snoc xs x)
  then show "dots_first acc \<Longrightarrow> dots_first (butlast acc)"
    by (simp add: dots_first_snoc)
qed

lemma dots_first_prefix: "dots_first (acc @ ''..'' # cs) \<Longrightarrow> \<forall>x\<in>set acc. x = ''..''"
  by (auto simp: dots_first_def dropWhile_append split: if_splits)

lemma collapsed_Nil: "collapsed ini []"
  by (simp add: collapsed_def dots_first_def)

lemma loop_collapsed:
  "\<forall>c\<in>set comps. CHR ''/'' \<notin> set c \<Longrightarrow> collapsed ini acc \<Longrightarrow>
   collapsed ini (normpath_loop ini comps acc)"
proof (induction comps arbitrary: acc)
  case Nil
  then show ?case by simp
next
  case (Cons c comps)
  have sl: "\<forall>c\<in>set comps. CHR ''/'' \<notin> set c" and c: "CHR ''/'' \<notin> set c"
    using Cons.prems(1) by simp_all
  show ?case
  proof (cases "c = [] \<or> c = ''.''")
    case True
    then show ?thesis using Cons.IH [OF sl Cons.prems(2)] by auto
  next
    case False
    then have cl: "clean c" using c by (simp add: clean_def)
    show ?thesis
    proof (cases "c \<noteq> ''..'' \<or> (ini = 0 \<and> acc = []) \<or> (acc \<noteq> [] \<and> last acc = ''..'')")
      case True
      have "collapsed ini (acc @ [c])"
      proof (cases "ini = 0")
        case True
        have "dots_first (acc @ [c])"
          using \<open>c \<noteq> ''..'' \<or> (ini = 0 \<and> acc = []) \<or> (acc \<noteq> [] \<and> last acc = ''..'')\<close>
            Cons.prems(2) True dots_first_last [of acc]
          by (auto simp: dots_first_snoc collapsed_def)
        then show ?thesis using Cons.prems(2) cl True by (simp add: collapsed_def)
      next
        case False
        then have "''..'' \<notin> set acc" using Cons.prems(2) by (simp add: collapsed_def)
        then have "c \<noteq> ''..''"
          using \<open>c \<noteq> ''..'' \<or> (ini = 0 \<and> acc = []) \<or> (acc \<noteq> [] \<and> last acc = ''..'')\<close> False
          by (metis last_in_set)
        then show ?thesis using Cons.prems(2) cl False by (simp add: collapsed_def)
      qed
      from Cons.IH [OF sl this] True False show ?thesis by simp
    next
      case F2: False
      have "collapsed ini (butlast acc)"
        using Cons.prems(2)
        by (auto simp: collapsed_def list_all_iff dots_first_butlast dest: in_set_butlastD)
      from Cons.IH [OF sl this] Cons.IH [OF sl Cons.prems(2)] F2 False show ?thesis by auto
    qed
  qed
qed

lemma loop_fixed: "collapsed ini (acc @ cs) \<Longrightarrow> normpath_loop ini cs acc = acc @ cs"
proof (induction cs arbitrary: acc)
  case Nil
  then show ?case by simp
next
  case (Cons c cs)
  from Cons.prems have cl: "clean c" by (simp add: collapsed_def)
  then have ne: "\<not> (c = [] \<or> c = ''.'')" by (simp add: clean_def)
  have st: "c \<noteq> ''..'' \<or> (ini = 0 \<and> acc = []) \<or> (acc \<noteq> [] \<and> last acc = ''..'')"
  proof (cases "c = ''..''")
    case False
    then show ?thesis by simp
  next
    case True
    with Cons.prems have i: "ini = 0" by (auto simp: collapsed_def split: if_splits)
    with Cons.prems True have "\<forall>x\<in>set acc. x = ''..''"
      using dots_first_prefix [of acc cs] by (simp add: collapsed_def)
    then have "acc = [] \<or> (acc \<noteq> [] \<and> last acc = ''..'')" by (metis last_in_set)
    with i show ?thesis by auto
  qed
  have "normpath_loop ini cs (acc @ [c]) = (acc @ [c]) @ cs"
    using Cons.IH [of "acc @ [c]"] Cons.prems by simp
  with ne st show ?case by simp
qed

lemma initial_slashes_le: "initial_slashes s \<le> 2"
  by (simp add: initial_slashes_def)

lemma initial_slashes_form:
  assumes "ini \<le> 2" and "j = [] \<or> hd j \<noteq> CHR ''/''"
  shows "initial_slashes (replicate ini CHR ''/'' @ j) = ini"
proof -
  from assms(1) consider "ini = 0" | "ini = 1" | "ini = 2" by linarith
  then show ?thesis
  proof cases
    case 1
    with assms(2) show ?thesis by (cases j) (auto simp: initial_slashes_def startswith_def)
  next
    case 2
    with assms(2) show ?thesis by (cases j) (auto simp: initial_slashes_def startswith_def)
  next
    case 3
    then have r: "replicate ini CHR ''/'' = ''//''" by (simp add: numeral_2_eq_2)
    with assms(2) 3 show ?thesis by (cases j) (auto simp: initial_slashes_def startswith_def)
  qed
qed

lemma collapsed_join_hd:
  assumes "collapsed ini cs" and "cs \<noteq> []"
  shows "join ''/'' cs \<noteq> [] \<and> hd (join ''/'' cs) \<noteq> CHR ''/''"
proof -
  from assms have c: "clean (hd cs)" by (cases cs) (auto simp: collapsed_def)
  then have "hd cs \<noteq> []" and "hd (hd cs) \<noteq> CHR ''/''"
    by (cases "hd cs"; auto simp: clean_def)+
  with join_hd [OF assms(2), of "''/''"] show ?thesis by simp
qed

lemma collapsed_join_last:
  assumes "collapsed ini cs" and "cs \<noteq> []"
  shows "join ''/'' cs \<noteq> [] \<and> last (join ''/'' cs) \<noteq> CHR ''/''"
proof -
  from assms have c: "clean (last cs)" by (auto simp: collapsed_def list_all_iff)
  then have "last cs \<noteq> []" and "last (last cs) \<noteq> CHR ''/''"
    by (metis clean_def, metis clean_def last_in_set)
  with join_last [OF assms(2), of "''/''"] show ?thesis by simp
qed

lemma collapsed_no_sep: "collapsed ini cs \<Longrightarrow> \<forall>w\<in>set cs. CHR ''/'' \<notin> set w"
  by (auto simp: collapsed_def list_all_iff clean_def)

lemma normpath_of_form:
  assumes i: "ini \<le> 2" and c: "collapsed ini cs" and n: "\<not> (ini = 0 \<and> cs = [])"
  shows "normpath (replicate ini CHR ''/'' @ join ''/'' cs) = replicate ini CHR ''/'' @ join ''/'' cs"
proof -
  let ?r = "replicate ini CHR ''/'' @ join ''/'' cs"
  have j: "join ''/'' cs = [] \<or> hd (join ''/'' cs) \<noteq> CHR ''/''"
    using collapsed_join_hd [OF c] by (cases cs) auto
  have ne: "?r \<noteq> []"
    using n collapsed_join_hd [OF c] by (cases "cs = []") auto
  have isl: "initial_slashes ?r = ini" by (rule initial_slashes_form [OF i j])
  have lp: "normpath_loop ini (split CHR ''/'' ?r) [] = cs"
  proof (cases "cs = []")
    case True
    have "split CHR ''/'' (replicate ini CHR ''/'') = replicate ini [] @ [[]]"
      using split_leading [of "CHR ''/''" ini "[]"] by simp
    with True show ?thesis by (simp add: loop_append loop_empties)
  next
    case False
    have "split CHR ''/'' (join ''/'' cs) = cs"
      using split_join [OF False, of "CHR ''/''"] collapsed_no_sep [OF c] by simp
    then show ?thesis
      using loop_fixed [of ini "[]" cs] c
      by (simp add: split_leading loop_append loop_empties)
  qed
  show ?thesis
    using ne by (simp add: normpath_def Let_def isl lp)
qed

lemma normpath_of_form_slash:
  assumes i: "ini \<le> 2" and c: "collapsed ini cs" and n: "cs \<noteq> []"
  shows "normpath (replicate ini CHR ''/'' @ join ''/'' cs @ ''/'')
           = replicate ini CHR ''/'' @ join ''/'' cs"
proof -
  let ?j = "join ''/'' cs @ ''/''"
  let ?r = "replicate ini CHR ''/'' @ ?j"
  have j: "?j = [] \<or> hd ?j \<noteq> CHR ''/''"
    using collapsed_join_hd [OF c n] by simp
  have isl: "initial_slashes ?r = ini" by (rule initial_slashes_form [OF i j])
  have js: "?j = join ''/'' (cs @ [[]])" by (simp add: join_snoc_empty [OF n])
  have "split CHR ''/'' ?j = cs @ [[]]"
    unfolding js using split_join [of "cs @ [[]]" "CHR ''/''"] collapsed_no_sep [OF c] by simp
  then have lp: "normpath_loop ini (split CHR ''/'' ?r) [] = cs"
    using loop_fixed [of ini "[]" cs] c
    by (simp add: split_leading loop_append loop_empties)
  have "replicate ini CHR ''/'' @ join ''/'' cs \<noteq> []"
    using collapsed_join_hd [OF c n] by simp
  then show ?thesis
    by (simp add: normpath_def Let_def isl lp)
qed

text \<open>The shape of every result of \<open>normpath\<close>.\<close>

lemma normpath_shape:
  "normpath s = ''.'' \<or>
   (\<exists>ini cs. ini \<le> 2 \<and> collapsed ini cs \<and> \<not> (ini = 0 \<and> cs = []) \<and>
      normpath s = replicate ini CHR ''/'' @ join ''/'' cs)"
proof (cases "s = []")
  case True
  then show ?thesis by (simp add: normpath_def)
next
  case False
  let ?ini = "initial_slashes s"
  let ?cs = "normpath_loop ?ini (split CHR ''/'' s) []"
  have c: "collapsed ?ini ?cs"
    using loop_collapsed [of "split CHR ''/'' s" ?ini "[]"] split_no_sep [of _ "CHR ''/''" s]
    by (simp add: collapsed_Nil)
  have nf: "normpath s =
      (if replicate ?ini CHR ''/'' @ join ''/'' ?cs = [] then ''.''
       else replicate ?ini CHR ''/'' @ join ''/'' ?cs)"
    using False by (simp only: normpath_def Let_def if_False)
  show ?thesis
  proof (cases "replicate ?ini CHR ''/'' @ join ''/'' ?cs = []")
    case True
    with nf have "normpath s = ''.''" by simp
    then show ?thesis by (rule disjI1)
  next
    case F: False
    then have "\<not> (?ini = 0 \<and> ?cs = [])" by auto
    moreover have "normpath s = replicate ?ini CHR ''/'' @ join ''/'' ?cs"
      using nf F by (simp only: if_False)
    ultimately show ?thesis using c initial_slashes_le [of s] by blast
  qed
qed

lemma normpath_not_Nil: "normpath s \<noteq> []"
  by (simp add: normpath_def Let_def)

lemma normpath_idem: "normpath (normpath s) = normpath s"
proof -
  have d: "normpath ''.'' = ''.''" by code_simp
  from normpath_shape [of s] show ?thesis
    using d normpath_of_form by auto
qed

lemma normpath_slash:
  assumes "normpath s \<noteq> ''/''" and "normpath s \<noteq> ''//''"
  shows "normpath (normpath s @ ''/'') = normpath s"
proof -
  have d: "normpath ''./'' = ''.''" by code_simp
  from normpath_shape [of s] show ?thesis
  proof
    assume "normpath s = ''.''"
    then show ?thesis using d by simp
  next
    assume "\<exists>ini cs. ini \<le> 2 \<and> collapsed ini cs \<and> \<not> (ini = 0 \<and> cs = []) \<and>
      normpath s = replicate ini CHR ''/'' @ join ''/'' cs"
    then obtain ini cs where i: "ini \<le> 2" and c: "collapsed ini cs"
      and n: "\<not> (ini = 0 \<and> cs = [])"
      and e: "normpath s = replicate ini CHR ''/'' @ join ''/'' cs" by blast
    have "cs \<noteq> []"
    proof
      assume "cs = []"
      with n i have "ini = 1 \<or> ini = 2" by linarith
      with e \<open>cs = []\<close> assms show False by (auto simp: numeral_2_eq_2)
    qed
    from normpath_of_form_slash [OF i c this] e show ?thesis by simp
  qed
qed

lemma normpath_endswith_sep:
  assumes "endswith (normpath s) SEP"
  shows "normpath s = ''/'' \<or> normpath s = ''//''"
proof -
  from assms have l: "last (normpath s) = CHR ''/''" by (simp add: endswith_sep_iff)
  from normpath_shape [of s] show ?thesis
  proof
    assume "normpath s = ''.''"
    with l show ?thesis by simp
  next
    assume "\<exists>ini cs. ini \<le> 2 \<and> collapsed ini cs \<and> \<not> (ini = 0 \<and> cs = []) \<and>
      normpath s = replicate ini CHR ''/'' @ join ''/'' cs"
    then obtain ini cs where i: "ini \<le> 2" and c: "collapsed ini cs"
      and n: "\<not> (ini = 0 \<and> cs = [])"
      and e: "normpath s = replicate ini CHR ''/'' @ join ''/'' cs" by blast
    have "cs = []"
    proof (rule ccontr)
      assume "cs \<noteq> []"
      from collapsed_join_last [OF c this] e l show False by simp
    qed
    with n i have "ini = 1 \<or> ini = 2" by linarith
    with e \<open>cs = []\<close> show ?thesis by (auto simp: numeral_2_eq_2)
  qed
qed

section \<open>Facts about runs and loops\<close>

lemma then_run_None [simp]: "then_run (es, None) r = (es @ fst r, snd r)"
  by (simp add: then_run_def)

lemma then_run_Some [simp]: "then_run (es, Some e) r = (es, Some e)"
  by (simp add: then_run_def)

lemma then_run_done [simp]: "then_run done_run r = r"
  by (simp add: then_run_def done_run_def)

lemma for_each_returns:
  "\<forall>x\<in>set xs. snd (body x) = None \<Longrightarrow>
   for_each body xs = (concat (map (\<lambda>x. fst (body x)) xs), None)"
proof (induction xs)
  case Nil
  then show ?case by (simp add: done_run_def)
next
  case (Cons x xs)
  obtain es where b: "body x = (es, None)"
    using Cons.prems by (cases "body x") simp
  have "for_each body xs = (concat (map (\<lambda>x. fst (body x)) xs), None)"
    using Cons by simp
  with b show ?case by simp
qed

lemma call_back_returns:
  "\<forall>f a. cb = Some f \<longrightarrow> f a \<Longrightarrow> snd (call_back tag cb args) = None"
  by (cases cb) (simp_all add: call_back_def done_run_def)

lemma store_calls_append [simp]: "store_calls (xs @ ys) = store_calls xs @ store_calls ys"
  by (simp add: store_calls_def)

lemma store_calls_Cons_call [simp]:
  "store_calls (ListObjects p d # es) = ListObjects p d # store_calls es"
  "store_calls (CopyObject a b # es) = CopyObject a b # store_calls es"
  "store_calls (DeleteObject k # es) = DeleteObject k # store_calls es"
  "store_calls [] = []"
  by (simp_all add: store_calls_def)

lemma store_calls_call_back [simp]:
  "store_calls (fst (call_back OnError cb args)) = []"
  "store_calls (fst (call_back OnSuccess cb args)) = []"
  by (cases cb; simp add: call_back_def done_run_def store_calls_def)+

lemma store_calls_concat:
  "\<forall>x\<in>set xs. store_calls (f x) = g x \<Longrightarrow>
   store_calls (concat (map f xs)) = concat (map g xs)"
  by (induction xs) simp_all

lemma wrap_None [simp]: "wrap W (es, None) = (es, None)"
  by (simp add: wrap_def)

text \<open>One step of each loop, when the store answers and the callbacks return.\<close>

lemma delete_single_run:
  assumes s: "\<forall>f a. on_success = Some f \<longrightarrow> f a" and e: "\<forall>g a. on_error = Some g \<longrightarrow> g a"
      and d: "delete_object st k = Some status"
  shows "snd (delete_single st on_success on_error k) = None
       \<and> store_calls (fst (delete_single st on_success on_error k)) = [DeleteObject k]
       \<and> (status \<ge> 400 \<and> on_error \<noteq> None \<longrightarrow>
            OnError [Str ''delete'', Str k, PyNone, Result status]
              \<in> set (fst (delete_single st on_success on_error k)))"
proof -
  have r: "snd (call_back OnError on_error [Str ''delete'', Str k, PyNone, Result status]) = None"
          "snd (call_back OnSuccess on_success [Str ''delete'', Str k, PyNone, Result status]) = None"
    using call_back_returns [OF s] call_back_returns [OF e] by simp_all
  have m: "on_error \<noteq> None \<Longrightarrow>
           OnError [Str ''delete'', Str k, PyNone, Result status]
             \<in> set (fst (call_back OnError on_error [Str ''delete'', Str k, PyNone, Result status]))"
    by (cases on_error) (simp_all add: call_back_def)
  show ?thesis
    using r m by (simp add: delete_single_def d)
qed

lemma copy_single_run:
  assumes s: "\<forall>f a. on_success = Some f \<longrightarrow> f a" and e: "\<forall>g a. on_error = Some g \<longrightarrow> g a"
      and c: "copy_object st k dst = Some status"
  shows "snd (copy_single st on_success on_error k dst) = None
       \<and> store_calls (fst (copy_single st on_success on_error k dst)) = [CopyObject k dst]
       \<and> (status \<ge> 400 \<and> on_error \<noteq> None \<longrightarrow>
            OnError [Str k, Str dst, Result status]
              \<in> set (fst (copy_single st on_success on_error k dst)))"
proof -
  have r: "snd (call_back OnError on_error [Str k, Str dst, Result status]) = None"
          "snd (call_back OnSuccess on_success [Str ''copy'', Str k, Str dst, Result status]) = None"
    using call_back_returns [OF s] call_back_returns [OF e] by simp_all
  have m: "on_error \<noteq> None \<Longrightarrow>
           OnError [Str k, Str dst, Result status]
             \<in> set (fst (call_back OnError on_error [Str k, Str dst, Result status]))"
    by (cases on_error) (simp_all add: call_back_def)
  show ?thesis
    using r m by (simp add: copy_single_def c)
qed

lemma then_run_fst_snd:
  "snd r1 = None \<Longrightarrow> then_run r1 r2 = (fst r1 @ fst r2, snd r2)"
  by (simp add: then_run_def)

lemma move_single_run:
  assumes s: "\<forall>f a. on_success = Some f \<longrightarrow> f a" and e: "\<forall>g a. on_error = Some g \<longrightarrow> g a"
      and c: "copy_object st k dst = Some status"
      and d: "delete_object st k = Some status'"
  shows "snd (move_single st on_success on_error k dst) = None
       \<and> store_calls (fst (move_single st on_success on_error k dst))
           = [CopyObject k dst, DeleteObject k]
       \<and> (status \<ge> 400 \<and> on_error \<noteq> None \<longrightarrow>
            OnError [Str k, Str dst, Result status]
              \<in> set (fst (move_single st on_success on_error k dst)))
       \<and> (status' \<ge> 400 \<and> on_error \<noteq> None \<longrightarrow>
            OnError [Str ''move'', Str k, Str dst, Result status']
              \<in> set (fst (move_single st on_success on_error k dst)))"
proof -
  have r: "snd (call_back OnError on_error [Str k, Str dst, Result status]) = None"
          "snd (call_back OnError on_error [Str ''move'', Str k, Str dst, Result status']) = None"
          "snd (call_back OnSuccess on_success [Str ''move'', Str k, Str dst, Result status']) = None"
    using call_back_returns [OF s] call_back_returns [OF e] by simp_all
  have m: "on_error \<noteq> None \<Longrightarrow>
           OnError args \<in> set (fst (call_back OnError on_error args))" for args
    by (cases on_error) (simp_all add: call_back_def)
  show ?thesis
    using r m by (simp add: move_single_def c d then_run_fst_snd done_run_def)
qed

text \<open>The three walks over a listed directory, when nothing raises.\<close>

lemma concat_map_single: "concat (map (\<lambda>x. [f x]) xs) = map f xs"
  by (induction xs) simp_all


lemma delete_walk:
  assumes s: "\<forall>f a. on_success = Some f \<longrightarrow> f a" and e: "\<forall>g a. on_error = Some g \<longrightarrow> g a"
      and src: "is_dir (norm_path src)"
      and l: "list_objects st (norm_path src) [] = Some keys"
      and d: "\<forall>k\<in>set keys. delete_object st k \<noteq> None"
  shows "delete st on_success on_error src True =
           (ListObjects (norm_path src) [] #
              concat (map (\<lambda>k. fst (delete_single st on_success on_error k)) (rev keys)), None)"
proof -
  have "\<forall>k\<in>set (rev keys). snd (delete_single st on_success on_error k) = None"
  proof
    fix k assume "k \<in> set (rev keys)"
    with d obtain status where "delete_object st k = Some status" by auto
    from delete_single_run [OF s e this]
    show "snd (delete_single st on_success on_error k) = None" by simp
  qed
  from for_each_returns [OF this]
  show ?thesis
    by (simp add: delete_def Let_def src iterate_def list_dir_def l)
qed

lemma copy_walk:
  assumes s: "\<forall>f a. on_success = Some f \<longrightarrow> f a" and e: "\<forall>g a. on_error = Some g \<longrightarrow> g a"
      and src: "is_dir (norm_path src)" and dst: "is_dir (norm_path dst)"
      and ns: "\<not> startswith (norm_path dst) (norm_path src)"
      and l: "list_objects st (norm_path src) [] = Some keys"
      and c: "\<forall>k\<in>set keys. copy_object st k
                (new_path (parent_prefix (norm_path src)) (norm_path dst) k) \<noteq> None"
  shows "copy st on_success on_error src dst =
           (ListObjects (norm_path src) [] #
              concat (map (\<lambda>k. fst (copy_single st on_success on_error k
                    (new_path (parent_prefix (norm_path src)) (norm_path dst) k))) keys), None)"
proof -
  let ?np = "new_path (parent_prefix (norm_path src)) (norm_path dst)"
  have "\<forall>k\<in>set keys. snd (copy_single st on_success on_error k (?np k)) = None"
  proof
    fix k assume "k \<in> set keys"
    with c obtain status where "copy_object st k (?np k) = Some status" by auto
    from copy_single_run [OF s e this]
    show "snd (copy_single st on_success on_error k (?np k)) = None" by simp
  qed
  from for_each_returns [OF this]
  show ?thesis
    by (simp add: copy_def Let_def src dst ns iterate_def list_dir_def l)
qed

lemma move_walk:
  assumes s: "\<forall>f a. on_success = Some f \<longrightarrow> f a" and e: "\<forall>g a. on_error = Some g \<longrightarrow> g a"
      and src: "is_dir (norm_path src)" and dst: "is_dir (norm_path dst)"
      and ns: "\<not> startswith (norm_path dst) (norm_path src)"
      and l: "list_objects st (norm_path src) [] = Some keys"
      and c: "\<forall>k\<in>set keys. copy_object st k
                (new_path (parent_prefix (norm_path src)) (norm_path dst) k) \<noteq> None"
      and d: "\<forall>k\<in>set keys. delete_object st k \<noteq> None"
  shows "move st on_success on_error src dst =
           (ListObjects (norm_path src) [] #
              concat (map (\<lambda>k. fst (move_single st on_success on_error k
                    (new_path (parent_prefix (norm_path src)) (norm_path dst) k))) keys), None)"
proof -
  let ?np = "new_path (parent_prefix (norm_path src)) (norm_path dst)"
  have "\<forall>k\<in>set keys. snd (move_single st on_success on_error k (?np k)) = None"
  proof
    fix k assume k: "k \<in> set keys"
    with c obtain status where c': "copy_object st k (?np k) = Some status" by auto
    from k d obtain status' where d': "delete_object st k = Some status'" by auto
    from move_single_run [OF s e c' d']
    show "snd (move_single st on_success on_error k (?np k)) = None" by simp
  qed
  from for_each_returns [OF this]
  show ?thesis
    by (simp add: move_def Let_def src dst ns iterate_def list_dir_def l)
qed

text \<open>The paths and the listing of the move scenario.\<close>

lemma scenario_paths:
  "norm_path ''x/'' = ''x/''" "norm_path ''y/'' = ''y/''" "is_dir ''x/''" "is_dir ''y/''"
  "\<not> startswith ''y/'' ''x/''" "parent_prefix ''x/'' = SEP"
  by code_simp+

lemma scenario_listing:
  "list_objects (key_store scenario_keys cs ds) ''x/'' [] = Some scenario_keys"
  by (simp add: key_store_def scenario_keys_def startswith_def roll_up_def)

section \<open>Deleting a directory without \<open>recursive\<close>\<close>

text \<open>
  Claim C8. \<open>delete\<close> with \<open>recursive = False\<close> on a directory-shaped key (one that
  \<open>is_dir\<close> accepts, such as a key with a trailing separator) raises the delete error,
  whatever the store holds under the key, and has no effect at all: no listing, no store
  delete, no callback.
\<close>

theorem delete_dir_not_recursive:
  "is_dir remote \<Longrightarrow>
   delete st on_success on_error remote False =
     ([], Some (YuiDeleteException (YuiDeleteException
            (Message ''The directory to be deleted is not empty!''))))"
  by (simp add: delete_def Let_def is_dir_norm_path raise_def wrap_def)

theorem delete_dir_not_recursive_witness:
  "is_dir ''x/'' \<and>
   list_objects (key_store [''x/a.txt'', ''x/b/'', ''x/b/c.txt''] 200 204) ''x/'' [] =
     Some [''x/a.txt'', ''x/b/'', ''x/b/c.txt''] \<and>
   delete (key_store [''x/a.txt'', ''x/b/'', ''x/b/c.txt''] 200 204) recorder recorder ''x/'' False =
     ([], Some (YuiDeleteException (YuiDeleteException
            (Message ''The directory to be deleted is not empty!''))))"
proof -
  have h: "is_dir ''x/''" by code_simp
  have l: "list_objects (key_store [''x/a.txt'', ''x/b/'', ''x/b/c.txt''] 200 204) ''x/'' [] =
     Some [''x/a.txt'', ''x/b/'', ''x/b/c.txt'']" by code_simp
  show ?thesis using h l delete_dir_not_recursive [OF h] by simp
qed

section \<open>Paths that collapse to nothing\<close>

text \<open>
  Claim C3. On the empty string, on \<open>.\<close>, on \<open>a/..\<close> and on \<open>./\<close>, whose
  collapsing leaves no segment, \<open>norm_path\<close> does not return the bare separator:
  \<open>normpath\<close> gives \<open>.\<close> for them, never the empty string that \<open>norm_path\<close>
  tests for, so the result is \<open>./\<close> or \<open>.\<close>.
\<close>

theorem norm_path_empty_collapse:
  "norm_path [] = ''./'' \<and> norm_path ''.'' = ''./'' \<and>
   norm_path ''a/..'' = ''.'' \<and> norm_path ''./'' = ''./''"
  by code_simp

section \<open>\<open>cd\<close> to the parent\<close>

text \<open>
  Claim C9. From root \<open>x/y/\<close>, \<open>cd ..\<close> leaves the root \<open>x/\<close>, in the console and
  in the attribute file; from the store root (the empty root) it leaves the empty root.
\<close>

theorem cd_dotdot:
  "root (cd (y\<lparr>root := ''x/y/''\<rparr>) [''..'']) = ''x/'' \<and>
   attr_file (cd (y\<lparr>root := ''x/y/''\<rparr>) [''..'']) = ''x/'' \<and>
   root (cd (y\<lparr>root := []\<rparr>) [''..'']) = [] \<and>
   attr_file (cd (y\<lparr>root := []\<rparr>) [''..'']) = []"
proof -
  have d: "is_dir ''..''" by code_simp
  have n: "norm_path ''..'' = ''../''" by code_simp
  show ?thesis
    by (simp add: cd_def Let_def d n basic_info_print_def print_def cd_finish_def update_attr_def
        startswith_def SEP_def)
qed

section \<open>Recursive download of a nested directory\<close>

text \<open>
  Claim C5. Downloading the directory \<open>p/x/\<close>, which holds \<open>p/x/a.txt\<close>, into the
  existing local directory \<open>/dl\<close>: the directory itself becomes \<open>/dl/x/\<close>, but the
  destination computed for the descendant keeps the whole parent path of its key,
  \<open>/dl/p/x\<close>, a path under a directory that nothing created, and the download ends in
  the download error. The prefix \<open>p/\<close> above the downloaded directory is not stripped.
\<close>

theorem download_nested_root:
  "fst (download (key_store [''p/x/a.txt''] 200 204) recorder recorder tmp_fs
          ''p/x/'' ''/dl'' True) =
     ([Mkdir ''/dl/x/'',
       OnSuccess [Str ''download'', Str ''p/x/'', Str ''/dl'', Str ''mkdir''],
       ListObjects ''p/x/'' [],
       GetObjectToFile ''p/x/a.txt'' ''/dl/p/x''],
      Some (YuiDownloadException OSError))"
  by code_simp

section \<open>Copying one object to a key that is not a directory\<close>




section \<open>What \<open>move_single\<close> reports\<close>




section \<open>Statuses of 400 and more inside a walk\<close>

text \<open>
  The walks with callbacks that return on whatever they are given (a callable of any
  number of arguments). Take a directory-shaped source whose listing the store returns and
  a store that answers every delete and copy of the walk with a status. Then, whatever the
  statuses are, the recursive \<open>delete\<close>, the \<open>copy\<close> and the \<open>move\<close> of the
  directory end without an exception and issue their store calls for every listed key
  (deletes in reverse listing order, copies and copy-delete pairs in listing order), and
  every status of 400 or more is handed to the error callback.
\<close>

lemma walks_when_nothing_raises:
  assumes s: "\<forall>f a. on_success = Some f \<longrightarrow> f a" and e: "\<forall>g a. on_error = Some g \<longrightarrow> g a"
      and src: "is_dir (norm_path src)" and dst: "is_dir (norm_path dst)"
      and ns: "\<not> startswith (norm_path dst) (norm_path src)"
      and l: "list_objects st (norm_path src) [] = Some keys"
      and c: "\<forall>k\<in>set keys. copy_object st k
                (new_path (parent_prefix (norm_path src)) (norm_path dst) k) \<noteq> None"
      and d: "\<forall>k\<in>set keys. delete_object st k \<noteq> None"
  shows
    "snd (delete st on_success on_error src True) = None
   \<and> store_calls (fst (delete st on_success on_error src True)) =
       ListObjects (norm_path src) [] # map DeleteObject (rev keys)
   \<and> (\<forall>k\<in>set keys. \<forall>status.
        delete_object st k = Some status \<and> status \<ge> 400 \<and> on_error \<noteq> None \<longrightarrow>
        OnError [Str ''delete'', Str k, PyNone, Result status]
          \<in> set (fst (delete st on_success on_error src True)))
   \<and> snd (copy st on_success on_error src dst) = None
   \<and> store_calls (fst (copy st on_success on_error src dst)) =
       ListObjects (norm_path src) [] #
       map (\<lambda>k. CopyObject k (new_path (parent_prefix (norm_path src)) (norm_path dst) k)) keys
   \<and> (\<forall>k\<in>set keys. \<forall>status.
        copy_object st k (new_path (parent_prefix (norm_path src)) (norm_path dst) k) = Some status
          \<and> status \<ge> 400 \<and> on_error \<noteq> None \<longrightarrow>
        OnError [Str k, Str (new_path (parent_prefix (norm_path src)) (norm_path dst) k),
                 Result status]
          \<in> set (fst (copy st on_success on_error src dst)))
   \<and> snd (move st on_success on_error src dst) = None
   \<and> store_calls (fst (move st on_success on_error src dst)) =
       ListObjects (norm_path src) [] #
       concat (map (\<lambda>k. [CopyObject k (new_path (parent_prefix (norm_path src)) (norm_path dst) k),
                          DeleteObject k]) keys)
   \<and> (\<forall>k\<in>set keys. \<forall>status.
        copy_object st k (new_path (parent_prefix (norm_path src)) (norm_path dst) k) = Some status
          \<and> status \<ge> 400 \<and> on_error \<noteq> None \<longrightarrow>
        OnError [Str k, Str (new_path (parent_prefix (norm_path src)) (norm_path dst) k),
                 Result status]
          \<in> set (fst (move st on_success on_error src dst)))
   \<and> (\<forall>k\<in>set keys. \<forall>status.
        delete_object st k = Some status \<and> status \<ge> 400 \<and> on_error \<noteq> None \<longrightarrow>
        OnError [Str ''move'', Str k,
                 Str (new_path (parent_prefix (norm_path src)) (norm_path dst) k), Result status]
          \<in> set (fst (move st on_success on_error src dst)))"
proof -
  let ?np = "new_path (parent_prefix (norm_path src)) (norm_path dst)"
  let ?D = "delete st on_success on_error src True"
  let ?C = "copy st on_success on_error src dst"
  let ?M = "move st on_success on_error src dst"
  note dw = delete_walk [OF s e src l d]
  note cw = copy_walk [OF s e src dst ns l c]
  note mw = move_walk [OF s e src dst ns l c d]
  have ds: "\<And>k. k \<in> set keys \<Longrightarrow> \<exists>status. delete_object st k = Some status"
    using d by auto
  have cs: "\<And>k. k \<in> set keys \<Longrightarrow> \<exists>status. copy_object st k (?np k) = Some status"
    using c by auto
  have D1: "snd ?D = None" by (simp add: dw)
  have D2: "store_calls (fst ?D) = ListObjects (norm_path src) [] # map DeleteObject (rev keys)"
  proof -
    have "\<forall>k\<in>set (rev keys). store_calls (fst (delete_single st on_success on_error k)) = [DeleteObject k]"
      using ds delete_single_run [OF s e] by fastforce
    from store_calls_concat [OF this] show ?thesis
      by (simp add: dw concat_map_single)
  qed
  have D3: "\<forall>k\<in>set keys. \<forall>status.
        delete_object st k = Some status \<and> status \<ge> 400 \<and> on_error \<noteq> None \<longrightarrow>
        OnError [Str ''delete'', Str k, PyNone, Result status] \<in> set (fst ?D)"
  proof (intro ballI allI impI)
    fix k status
    assume k: "k \<in> set keys"
      and h: "delete_object st k = Some status \<and> status \<ge> 400 \<and> on_error \<noteq> None"
    from delete_single_run [OF s e conjunct1 [OF h]] h
    have "OnError [Str ''delete'', Str k, PyNone, Result status]
            \<in> set (fst (delete_single st on_success on_error k))" by simp
    with k show "OnError [Str ''delete'', Str k, PyNone, Result status] \<in> set (fst ?D)"
      by (auto simp: dw)
  qed
  have C1: "snd ?C = None" by (simp add: cw)
  have C2: "store_calls (fst ?C) =
       ListObjects (norm_path src) [] # map (\<lambda>k. CopyObject k (?np k)) keys"
  proof -
    have "\<forall>k\<in>set keys. store_calls (fst (copy_single st on_success on_error k (?np k)))
            = [CopyObject k (?np k)]"
      using cs copy_single_run [OF s e] by fastforce
    from store_calls_concat [OF this] show ?thesis
      by (simp add: cw concat_map_single)
  qed
  have C3: "\<forall>k\<in>set keys. \<forall>status.
        copy_object st k (?np k) = Some status \<and> status \<ge> 400 \<and> on_error \<noteq> None \<longrightarrow>
        OnError [Str k, Str (?np k), Result status] \<in> set (fst ?C)"
  proof (intro ballI allI impI)
    fix k status
    assume k: "k \<in> set keys"
      and h: "copy_object st k (?np k) = Some status \<and> status \<ge> 400 \<and> on_error \<noteq> None"
    from copy_single_run [OF s e conjunct1 [OF h]] h
    have "OnError [Str k, Str (?np k), Result status]
            \<in> set (fst (copy_single st on_success on_error k (?np k)))" by simp
    with k show "OnError [Str k, Str (?np k), Result status] \<in> set (fst ?C)"
      by (auto simp: cw)
  qed
  have M1: "snd ?M = None" by (simp add: mw)
  have M2: "store_calls (fst ?M) =
       ListObjects (norm_path src) [] #
       concat (map (\<lambda>k. [CopyObject k (?np k), DeleteObject k]) keys)"
  proof -
    have "\<forall>k\<in>set keys. store_calls (fst (move_single st on_success on_error k (?np k)))
            = [CopyObject k (?np k), DeleteObject k]"
    proof
      fix k assume k: "k \<in> set keys"
      from cs [OF k] obtain status where c': "copy_object st k (?np k) = Some status" by auto
      from ds [OF k] obtain status' where d': "delete_object st k = Some status'" by auto
      from move_single_run [OF s e c' d']
      show "store_calls (fst (move_single st on_success on_error k (?np k)))
            = [CopyObject k (?np k), DeleteObject k]" by simp
    qed
    from store_calls_concat [OF this] show ?thesis
      by (simp add: mw)
  qed
  have M3: "\<forall>k\<in>set keys. \<forall>status.
        copy_object st k (?np k) = Some status \<and> status \<ge> 400 \<and> on_error \<noteq> None \<longrightarrow>
        OnError [Str k, Str (?np k), Result status] \<in> set (fst ?M)"
  proof (intro ballI allI impI)
    fix k status
    assume k: "k \<in> set keys"
      and h: "copy_object st k (?np k) = Some status \<and> status \<ge> 400 \<and> on_error \<noteq> None"
    from ds [OF k] obtain status' where d': "delete_object st k = Some status'" by auto
    from move_single_run [OF s e conjunct1 [OF h] d'] h
    have "OnError [Str k, Str (?np k), Result status]
            \<in> set (fst (move_single st on_success on_error k (?np k)))" by simp
    with k show "OnError [Str k, Str (?np k), Result status] \<in> set (fst ?M)"
      by (auto simp: mw)
  qed
  have M4: "\<forall>k\<in>set keys. \<forall>status.
        delete_object st k = Some status \<and> status \<ge> 400 \<and> on_error \<noteq> None \<longrightarrow>
        OnError [Str ''move'', Str k, Str (?np k), Result status] \<in> set (fst ?M)"
  proof (intro ballI allI impI)
    fix k status
    assume k: "k \<in> set keys"
      and h: "delete_object st k = Some status \<and> status \<ge> 400 \<and> on_error \<noteq> None"
    from cs [OF k] obtain status' where c': "copy_object st k (?np k) = Some status'" by auto
    from move_single_run [OF s e c' conjunct1 [OF h]] h
    have "OnError [Str ''move'', Str k, Str (?np k), Result status]
            \<in> set (fst (move_single st on_success on_error k (?np k)))" by simp
    with k show "OnError [Str ''move'', Str k, Str (?np k), Result status] \<in> set (fst ?M)"
      by (auto simp: mw)
  qed
  from D1 D2 D3 C1 C2 C3 M1 M2 M3 M4 show ?thesis by blast
qed

lemma walks_when_nothing_raises_example:
  "snd (delete (key_store scenario_keys 404 500) recorder recorder ''x/'' True) = None
   \<and> store_calls (fst (delete (key_store scenario_keys 404 500) recorder recorder ''x/'' True)) =
       [ListObjects ''x/'' [], DeleteObject ''x/b/c.txt'', DeleteObject ''x/b/'',
        DeleteObject ''x/a.txt'']
   \<and> OnError [Str ''delete'', Str ''x/a.txt'', PyNone, Result 500]
        \<in> set (fst (delete (key_store scenario_keys 404 500) recorder recorder ''x/'' True))
   \<and> snd (copy (key_store scenario_keys 404 500) recorder recorder ''x/'' ''y/'') = None
   \<and> store_calls (fst (copy (key_store scenario_keys 404 500) recorder recorder ''x/'' ''y/'')) =
       [ListObjects ''x/'' [], CopyObject ''x/a.txt'' ''y/x/a.txt'',
        CopyObject ''x/b/'' ''y/x/b/'', CopyObject ''x/b/c.txt'' ''y/x/b/c.txt'']
   \<and> OnError [Str ''x/a.txt'', Str ''y/x/a.txt'', Result 404]
        \<in> set (fst (copy (key_store scenario_keys 404 500) recorder recorder ''x/'' ''y/''))
   \<and> snd (move (key_store scenario_keys 404 500) recorder recorder ''x/'' ''y/'') = None
   \<and> OnError [Str ''move'', Str ''x/a.txt'', Str ''y/x/a.txt'', Result 500]
        \<in> set (fst (move (key_store scenario_keys 404 500) recorder recorder ''x/'' ''y/''))"
proof -
  let ?st = "key_store scenario_keys 404 500"
  have s: "\<forall>f a. recorder = Some f \<longrightarrow> f a" by (simp add: recorder_def)
  have src: "is_dir (norm_path ''x/'')" and dst: "is_dir (norm_path ''y/'')"
    by (simp_all add: scenario_paths)
  have ns: "\<not> startswith (norm_path ''y/'') (norm_path ''x/'')" by (simp add: scenario_paths)
  have l: "list_objects ?st (norm_path ''x/'') [] = Some scenario_keys"
    by (simp add: scenario_paths scenario_listing)
  have c: "\<forall>k\<in>set scenario_keys. copy_object ?st k
             (new_path (parent_prefix (norm_path ''x/'')) (norm_path ''y/'') k) \<noteq> None"
    by (simp add: key_store_def)
  have d: "\<forall>k\<in>set scenario_keys. delete_object ?st k \<noteq> None"
    by (simp add: key_store_def)
  have k: "''x/a.txt'' \<in> set scenario_keys" by (simp add: scenario_keys_def)
  have st: "copy_object ?st ''x/a.txt'' ''y/x/a.txt'' = Some 404"
           "delete_object ?st ''x/a.txt'' = Some 500" by (simp_all add: key_store_def)
  have r: "recorder \<noteq> None" by (simp add: recorder_def)
  have np: "new_path (parent_prefix (norm_path ''x/'')) (norm_path ''y/'') key = ''y/'' @ key" for key
    by (simp add: new_path_def scenario_paths)
  note T = walks_when_nothing_raises [OF s s src dst ns l c d, unfolded scenario_paths]
  show ?thesis
    using T k st r by (simp add: scenario_keys_def new_path_def)
qed

text \<open>
  Claim C7. The callbacks of the manager take four arguments: operation, source,
  destination, result; \<open>Yui.on_error\<close> and \<open>Yui.on_success\<close> have these four
  parameters, and \<open>delete_single\<close> passes them. \<open>copy_single\<close> and the copy step of
  \<open>move_single\<close> pass three to the error callback, without the operation. With such
  callbacks, and a bucket that holds \<open>x/a\<close> and \<open>x/b\<close>:
  a copy that the store answers with 404 ends the walk of \<open>copy x/ y/\<close> and of
  \<open>move x/ y/\<close> at the first key, in the copy error and the move error, since the
  invocation of the error callback raises, and \<open>x/b\<close> is never processed; whereas the
  recursive \<open>delete x/\<close>, with every delete answered with 500, reports both keys to
  the error callback and ends without an exception.
\<close>

theorem walk_ends_on_copy_status:
  "copy (key_store [''x/a'', ''x/b''] 404 204) (Some yui_callback) (Some yui_callback)
        ''x/'' ''y/'' =
     ([ListObjects ''x/'' [], CopyObject ''x/a'' ''y/x/a'',
       OnError [Str ''x/a'', Str ''y/x/a'', Result 404]],
      Some (YuiCopyException CallbackError))
   \<and> move (key_store [''x/a'', ''x/b''] 404 204) (Some yui_callback) (Some yui_callback)
        ''x/'' ''y/'' =
     ([ListObjects ''x/'' [], CopyObject ''x/a'' ''y/x/a'',
       OnError [Str ''x/a'', Str ''y/x/a'', Result 404]],
      Some (YuiMoveException CallbackError))
   \<and> delete (key_store [''x/a'', ''x/b''] 200 500) (Some yui_callback) (Some yui_callback)
        ''x/'' True =
     ([ListObjects ''x/'' [],
       DeleteObject ''x/b'', OnError [Str ''delete'', Str ''x/b'', PyNone, Result 500],
       DeleteObject ''x/a'', OnError [Str ''delete'', Str ''x/a'', PyNone, Result 500]],
      None)"
  by code_simp

section \<open>Moving a directory\<close>

text \<open>
  Claim C1, as stated, fails: for the keys \<open>x/a.txt\<close>, \<open>x/b/\<close>, \<open>x/b/c.txt\<close> the
  destinations of \<open>move x/ y/\<close> are not \<open>y/a.txt\<close>, \<open>y/b/\<close>, \<open>y/b/c.txt\<close>.
\<close>

theorem move_scenario_counterexample:
  "set (copy_dests (fst (move (key_store scenario_keys 200 204) recorder recorder ''x/'' ''y/'')))
     \<noteq> {''y/a.txt'', ''y/b/'', ''y/b/c.txt''}"
  by code_simp

text \<open>
  Claim C1, amended. For these keys, whatever statuses the store answers with,
  \<open>move x/ y/\<close> lists \<open>x/\<close> and issues a copy followed by a delete for each of the
  three keys, in listing order, with the destinations \<open>y/x/a.txt\<close>, \<open>y/x/b/\<close>,
  \<open>y/x/b/c.txt\<close>: the source directory goes into the destination directory under
  its own name. The move ends without an exception.
\<close>

theorem move_scenario:
  "store_calls (fst (move (key_store scenario_keys cs ds) recorder recorder ''x/'' ''y/'')) =
     [ListObjects ''x/'' [],
      CopyObject ''x/a.txt'' ''y/x/a.txt'', DeleteObject ''x/a.txt'',
      CopyObject ''x/b/'' ''y/x/b/'', DeleteObject ''x/b/'',
      CopyObject ''x/b/c.txt'' ''y/x/b/c.txt'', DeleteObject ''x/b/c.txt'']
   \<and> snd (move (key_store scenario_keys cs ds) recorder recorder ''x/'' ''y/'') = None"
proof -
  let ?st = "key_store scenario_keys cs ds"
  have s: "\<forall>f a. recorder = Some f \<longrightarrow> f a" by (simp add: recorder_def)
  have src: "is_dir (norm_path ''x/'')" and dst: "is_dir (norm_path ''y/'')"
    by (simp_all add: scenario_paths)
  have ns: "\<not> startswith (norm_path ''y/'') (norm_path ''x/'')" by (simp add: scenario_paths)
  have l: "list_objects ?st (norm_path ''x/'') [] = Some scenario_keys"
    by (simp add: scenario_paths scenario_listing)
  have c: "\<forall>k\<in>set scenario_keys. copy_object ?st k
             (new_path (parent_prefix (norm_path ''x/'')) (norm_path ''y/'') k) \<noteq> None"
    by (simp add: key_store_def)
  have d: "\<forall>k\<in>set scenario_keys. delete_object ?st k \<noteq> None"
    by (simp add: key_store_def)
  have np: "new_path (parent_prefix (norm_path ''x/'')) (norm_path ''y/'') key = ''y/'' @ key" for key
    by (simp add: new_path_def scenario_paths)
  have ms: "store_calls (fst (move_single (key_store ks cs ds) recorder recorder k k'))
              = [CopyObject k k', DeleteObject k]" for ks k k'
    using move_single_run [OF s s, of "key_store ks cs ds" k k' cs ds] by (simp add: key_store_def)
  show ?thesis
    unfolding move_walk [OF s s src dst ns l c d] np
    by (simp add: scenario_paths scenario_keys_def ms)
qed

section \<open>What \<open>cd\<close> checks\<close>

text \<open>
  Claim C2, as stated, fails: in a bucket without any object, where \<open>is_exist\<close> answers
  that \<open>nosuch/\<close> does not exist, \<open>cd nosuch/\<close> from the store root changes the
  root and the persisted root to \<open>nosuch/\<close>.
\<close>

theorem cd_counterexample:
  "snd (is_exist (key_store [] 200 204) ''nosuch/'') = Some False \<and>
   root (cd (console (key_store [] 200 204) []) [''nosuch/'']) = ''nosuch/'' \<and>
   attr_file (cd (console (key_store [] 200 204) []) [''nosuch/'']) = ''nosuch/''"
  by code_simp

text \<open>
  Claim C2, amended. \<open>cd\<close> tests the shape of the target path only (\<open>is_dir\<close>, a test
  on the string) and never asks the store. A target that is not directory-shaped is
  rejected with the message \<open>cd path should be a directory\<close>, and the root and the
  persisted root stay as they were. A directory-shaped target is accepted whether or not it
  exists in the store: the root is recomputed from the segments and persisted. Neither
  outcome depends on the store.
\<close>

theorem cd_checks_shape_only:
  "(\<not> is_dir path \<longrightarrow>
      root (cd y [path]) = root y \<and> attr_file (cd y [path]) = attr_file y \<and>
      last (stdout (cd y [path])) = (RED, ''cd path should be a directory''))
   \<and> (is_dir path \<longrightarrow>
      root (cd y [path]) =
        join SEP (cd_loop (split CHR ''/''
          (if startswith (norm_path path) SEP then drop 1 (norm_path path)
           else root y @ norm_path path)) []) \<and>
      attr_file (cd y [path]) = root (cd y [path]))
   \<and> root (cd (y\<lparr>fm := st\<rparr>) [path]) = root (cd y [path])
   \<and> attr_file (cd (y\<lparr>fm := st\<rparr>) [path]) = attr_file (cd y [path])"
  by (simp add: cd_def Let_def basic_info_print_def print_def cd_finish_def update_attr_def)

theorem cd_checks_shape_only_witness:
  "\<not> is_dir ''nosuch'' \<and> is_dir ''nosuch/'' \<and>
   root (cd (console (key_store [] 200 204) ''x/'') [''nosuch'']) = ''x/'' \<and>
   attr_file (cd (console (key_store [] 200 204) ''x/'') [''nosuch'']) = ''x/'' \<and>
   last (stdout (cd (console (key_store [] 200 204) ''x/'') [''nosuch'']))
     = (RED, ''cd path should be a directory'') \<and>
   root (cd (console (key_store [] 200 204) ''x/'') [''nosuch/'']) = ''x/nosuch/'' \<and>
   attr_file (cd (console (key_store [] 200 204) ''x/'') [''nosuch/'']) = ''x/nosuch/''"
proof -
  let ?y = "console (key_store [] 200 204) ''x/''"
  have n: "\<not> is_dir ''nosuch''" by code_simp
  have d: "is_dir ''nosuch/''" by code_simp
  have p: "norm_path ''nosuch/'' = ''nosuch/''" by code_simp
  have r: "root ?y = ''x/''" "attr_file ?y = ''x/''" by (simp_all add: console_def)
  have j: "join SEP (cd_loop (split CHR ''/'' ''x/nosuch/'') []) = ''x/nosuch/''" by code_simp
  from cd_checks_shape_only [where path = "''nosuch''" and y = ?y] n r
  have a: "root (cd ?y [''nosuch'']) = ''x/'' \<and> attr_file (cd ?y [''nosuch'']) = ''x/'' \<and>
      last (stdout (cd ?y [''nosuch''])) = (RED, ''cd path should be a directory'')"
    by simp
  from cd_checks_shape_only [where path = "''nosuch/''" and y = ?y] d r p j
  have b: "root (cd ?y [''nosuch/'']) = ''x/nosuch/'' \<and>
           attr_file (cd ?y [''nosuch/'']) = ''x/nosuch/''"
    by (simp add: startswith_def SEP_def)
  from n d a b show ?thesis by simp
qed

section \<open>Normalising twice\<close>

text \<open>
  Claim C4, as stated, fails: \<open>a/../..\<close> normalises to \<open>..\<close>, which is not
  directory-shaped before collapsing, and \<open>..\<close> alone is a directory designator, so
  normalising again gives \<open>../\<close>.
\<close>

theorem norm_path_not_idempotent:
  "norm_path (norm_path ''a/../..'') \<noteq> norm_path ''a/../..''"
  by code_simp

text \<open>
  Claim C4, amended. \<open>norm_path (norm_path p) = norm_path p\<close> for every \<open>p\<close> whose
  normal form has no whitespace at either end and is none of \<open>.\<close>, \<open>..\<close>,
  \<open>//\<close> and \<open>///\<close>.
\<close>

theorem norm_path_idempotent_when_stable:
  assumes w: "strip (norm_path p) = norm_path p"
      and x: "norm_path p \<notin> {''.'', ''..'', ''//'', ''///''}"
  shows "norm_path (norm_path p) = norm_path p"
proof -
  let ?r = "normpath (strip p)"
  let ?q = "norm_path p"
  have root: "norm_path ''/'' = ''/''" by code_simp
  have u: "norm_path ?q =
     (if normpath ?q = [] \<or> normpath ?q = SEP then SEP
      else if endswith ?q SEP \<or> ?q \<in> {[], ''.'', ''..''}
        then normpath ?q @ SEP else normpath ?q)"
    using norm_path_unfold [of ?q] by (simp add: w)
  have rn: "?r \<noteq> []" by (rule normpath_not_Nil)
  show ?thesis
  proof (cases "?r = SEP")
    case True
    then have "?q = ''/''" by (simp add: norm_path_unfold SEP_def)
    with root show ?thesis by simp
  next
    case False
    show ?thesis
    proof (cases "endswith (strip p) SEP \<or> strip (strip p) \<in> {[], ''.'', ''..''}")
      case True
      with False rn have q: "?q = ?r @ ''/''" by (simp add: norm_path_unfold SEP_def)
      with x have "?r \<noteq> ''//''" by auto
      with False have n: "normpath ?q = ?r"
        unfolding q by (intro normpath_slash) (simp_all add: SEP_def)
      have "endswith ?q SEP" unfolding q by (simp add: endswith_sep_iff)
      with u n rn False show ?thesis by (simp add: q SEP_def)
    next
      case F: False
      with False rn have q: "?q = ?r" by (simp add: norm_path_unfold)
      have n: "normpath ?q = ?r" unfolding q by (rule normpath_idem)
      have "\<not> endswith ?r SEP"
      proof
        assume "endswith ?r SEP"
        from normpath_endswith_sep [OF this] False x q show False by (auto simp: SEP_def)
      qed
      moreover have "?r \<notin> {[], ''.'', ''..''}" using rn x q by auto
      ultimately show ?thesis using u n rn False by (simp add: q)
    qed
  qed
qed

theorem norm_path_idempotent_when_stable_witness:
  "strip (norm_path '' x//y/./z/../ '') = norm_path '' x//y/./z/../ '' \<and>
   norm_path '' x//y/./z/../ '' \<notin> {''.'', ''..'', ''//'', ''///''} \<and>
   norm_path '' x//y/./z/../ '' = ''x/y/'' \<and>
   norm_path (norm_path '' x//y/./z/../ '') = norm_path '' x//y/./z/../ ''"
proof -
  have v: "norm_path '' x//y/./z/../ '' = ''x/y/''" by code_simp
  have w: "strip (norm_path '' x//y/./z/../ '') = norm_path '' x//y/./z/../ ''"
    unfolding v by code_simp
  have x: "norm_path '' x//y/./z/../ '' \<notin> {''.'', ''..'', ''//'', ''///''}"
    unfolding v by simp
  from norm_path_idempotent_when_stable [OF w x] v w x show ?thesis by simp
qed

end
